theory Spec2Isabelle
  imports Complex_Main "HOL-Library.Multiset"
begin

section \<open>Errors raised by the cells\<close>

text \<open>
  The exceptions that the modelled cells can meet: \<open>ValueError\<close> is what \<open>ray.wait\<close>
  raises for a bad \<open>num_returns\<close> and \<open>time.sleep\<close> for a negative argument,
  \<open>RayTaskError\<close> is what \<open>ray.get\<close> raises for a failed task, and \<open>IndexError\<close> is
  Python's list indexing out of range.
\<close>

datatype error = ValueError | RayTaskError | IndexError

section \<open>The framework calls used by the polling loops\<close>

text \<open>
  \<open>ray.wait\<close> and \<open>ray.get\<close> belong to the external framework. Which of the ids
  \<open>ray.wait\<close> reports as ready depends on the moment of the call, so its answer is a
  parameter of the model: a function of the number of the call, the list waited on,
  \<open>num_returns\<close> and \<open>timeout\<close>, giving the pair (ready, remaining).
\<close>

type_synonym 'id wait_oracle = "nat \<Rightarrow> 'id list \<Rightarrow> nat \<Rightarrow> rat option \<Rightarrow> 'id list \<times> 'id list"

text \<open>
  \<open>ray.wait\<close> returns two empty lists for an empty list, before it looks at
  \<open>num_returns\<close>. For a non-empty list it checks \<open>num_returns\<close>; the lesson says of
  this check: "If you ask for more items than the length of the input list, you get an
  error", and a \<open>num_returns\<close> of zero is rejected in the same way. Two further checks
  of \<open>ray.wait\<close>, that the ids are distinct and that the timeout is not negative, are
  not part of the model: the cells pass ids that \<open>.remote\<close> has just returned and the
  timeouts \<open>10.0\<close>, \<open>2.5\<close> or none.
\<close>

definition ray_wait ::
  "'id wait_oracle \<Rightarrow> nat \<Rightarrow> 'id list \<Rightarrow> nat \<Rightarrow> rat option \<Rightarrow> error + 'id list \<times> 'id list" where
  "ray_wait wait t object_ids num_returns timeout =
     (if object_ids = [] then Inr ([], [])
      else if num_returns = 0 \<or> length object_ids < num_returns then Inl ValueError
      else Inr (wait t object_ids num_returns timeout))"

text \<open>
  \<open>ray.get\<close> on a list of ids gives the values in the order of the ids. The value of
  an id is a parameter as well: \<open>get i = None\<close> stands for a task that failed, for which
  \<open>ray.get\<close> raises.
\<close>

fun ray_get :: "('id \<Rightarrow> 'v option) \<Rightarrow> 'id list \<Rightarrow> error + 'v list" where
  "ray_get get [] = Inr []"
| "ray_get get (i # ids) =
     (case get i of
        None \<Rightarrow> Inl RayTaskError
      | Some v \<Rightarrow> (case ray_get get ids of Inl e \<Rightarrow> Inl e | Inr vs \<Rightarrow> Inr (v # vs)))"

section \<open>The polling loops\<close>

text \<open>
  \<^verbatim>\<open>
  arrays = []
  waiting_ids = list(added_array_ids)
  while len(waiting_ids) > 0:
      return_n = 2 if len(waiting_ids) > 1 else 1
      ready_ids, remaining_ids = ray.wait(waiting_ids, num_returns=return_n, timeout=10.0)
      new_arrays = ray.get(ready_ids)
      arrays.extend(new_arrays)
      waiting_ids = remaining_ids
  \<close>
  The loops of the lesson and of the solutions differ only in \<open>num_returns\<close> and
  \<open>timeout\<close>. A loop that never ends has the value \<open>None\<close>; an exception leaves the
  loop with \<open>Inl\<close>. The \<open>print\<close> calls change no variable and are left out.
\<close>

definition return_n :: "'id list \<Rightarrow> nat" where
  "return_n waiting_ids = (if 1 < length waiting_ids then 2 else 1)"

partial_function (option) wait_loop ::
  "('id list \<Rightarrow> nat) \<Rightarrow> rat option \<Rightarrow> 'id wait_oracle \<Rightarrow> ('id \<Rightarrow> 'v option) \<Rightarrow>
     nat \<Rightarrow> 'id list \<Rightarrow> 'v list \<Rightarrow> (error + 'v list) option" where
  "wait_loop num_returns timeout wait get t waiting_ids arrays =
     (if 0 < length waiting_ids then
        (case ray_wait wait t waiting_ids (num_returns waiting_ids) timeout of
           Inl e \<Rightarrow> Some (Inl e)
         | Inr (ready_ids, remaining_ids) \<Rightarrow>
             (case ray_get get ready_ids of
                Inl e \<Rightarrow> Some (Inl e)
              | Inr new_arrays \<Rightarrow>
                  wait_loop num_returns timeout wait get (Suc t) remaining_ids
                    (arrays @ new_arrays)))
      else Some (Inr arrays))"

text \<open>The first loop of the lesson: \<open>num_returns=1, timeout=10.0\<close>.\<close>

definition arrays_loop_one ::
  "'id wait_oracle \<Rightarrow> ('id \<Rightarrow> 'v option) \<Rightarrow> 'id list \<Rightarrow> (error + 'v list) option" where
  "arrays_loop_one wait get added_array_ids =
     wait_loop (\<lambda>_. 1) (Some 10) wait get 0 added_array_ids []"

text \<open>
  The loops with \<open>num_returns=return_n\<close>: \<open>timeout=10.0\<close> in the lesson and in its
  Exercise 1, \<open>timeout=2.5\<close> in the solution of that exercise.
\<close>

definition arrays_loop_two ::
  "rat option \<Rightarrow> 'id wait_oracle \<Rightarrow> ('id \<Rightarrow> 'v option) \<Rightarrow> 'id list \<Rightarrow> (error + 'v list) option" where
  "arrays_loop_two timeout wait get added_array_ids =
     wait_loop return_n timeout wait get 0 added_array_ids []"

text \<open>
  The loop of the solution of Exercise 3, \<open>ray.wait(waiting_ids)\<close> with the defaults
  \<open>num_returns=1, timeout=None\<close>.
\<close>

definition squares_loop ::
  "'id wait_oracle \<Rightarrow> ('id \<Rightarrow> 'v option) \<Rightarrow> 'id list \<Rightarrow> (error + 'v list) option" where
  "squares_loop wait get ids = wait_loop (\<lambda>_. 1) None wait get 0 ids []"

subsection \<open>What is assumed of the framework\<close>

text \<open>
  The contract of \<open>ray.wait\<close>: the two lists it returns are, together, the list it was
  given, up to order.
\<close>

definition wait_contract :: "'id wait_oracle \<Rightarrow> bool" where
  "wait_contract wait \<longleftrightarrow>
     (\<forall>t w n timeout. mset (fst (wait t w n timeout) @ snd (wait t w n timeout)) = mset w)"

text \<open>
  Progress: a call on a non-empty list, asking for at least one id, reports at least one
  id as ready. A call without a timeout blocks until this is so; a call with a timeout
  may return with nothing ready.
\<close>

definition wait_progress :: "'id wait_oracle \<Rightarrow> bool" where
  "wait_progress wait \<longleftrightarrow>
     (\<forall>t w n timeout. w \<noteq> [] \<longrightarrow> 0 < n \<longrightarrow> fst (wait t w n timeout) \<noteq> [])"

text \<open>
  Completion in submission order: the ready ids are always the front of the list waited
  on, and the remaining ids the rest of it.
\<close>

definition in_submission_order :: "'id wait_oracle \<Rightarrow> bool" where
  "in_submission_order wait \<longleftrightarrow>
     (\<forall>t w n timeout. \<exists>k. wait t w n timeout = (take k w, drop k w))"

text \<open>
  The results of a finished loop hold one value for each submitted id: they are what
  \<open>ray.get\<close> gives on a rearrangement of the submitted ids.
\<close>

definition fetched_once :: "('id \<Rightarrow> 'v option) \<Rightarrow> 'id list \<Rightarrow> 'v list \<Rightarrow> bool" where
  "fetched_once get ids arrays \<longleftrightarrow>
     (\<exists>fetched. mset fetched = mset ids \<and> ray_get get fetched = Inr arrays)"

text \<open>Two answers of \<open>ray.wait\<close> used as examples: oldest ids first, and newest id first.\<close>

definition oldest_first :: "'id wait_oracle" where
  "oldest_first t w n timeout = (take n w, drop n w)"

definition newest_first :: "'id wait_oracle" where
  "newest_first t w n timeout = (if w = [] then ([], []) else ([last w], butlast w))"

section \<open>Exercise 3: the slow squares\<close>

text \<open>
  \<^verbatim>\<open>
  def slow_square(n):
      time.sleep(n)
      return n*n
  \<close>
  \<open>time.sleep\<close> only lets time pass, but it raises \<open>ValueError\<close> for a negative
  argument. (It also raises for an argument too large for the clock, far beyond the
  \<open>range(4)\<close> of the cells; that is not modelled.)
\<close>

definition slow_square :: "int \<Rightarrow> error + int" where
  "slow_square n = (if n < 0 then Inl ValueError else Inr (n * n))"

text \<open>A list comprehension over a function that may raise stops at the first error.\<close>

fun comprehension :: "('a \<Rightarrow> error + 'b) \<Rightarrow> 'a list \<Rightarrow> error + 'b list" where
  "comprehension f [] = Inr []"
| "comprehension f (x # xs) =
     (case f x of
        Inl e \<Rightarrow> Inl e
      | Inr y \<Rightarrow> (case comprehension f xs of Inl e \<Rightarrow> Inl e | Inr ys \<Rightarrow> Inr (y # ys)))"

definition py_range :: "nat \<Rightarrow> int list" where
  "py_range n = map int [0..<n]"

text \<open>The cell of the lesson: \<open>squares = [slow_square(n) for n in range(4)]\<close>.\<close>

definition exercise3_sequential :: "error + int list" where
  "exercise3_sequential = comprehension slow_square (py_range 4)"

text \<open>
  Tasks. \<open>f.remote(x)\<close> hands the call to the framework and returns a fresh object id;
  the object store maps the id to the outcome of \<open>f(x)\<close>. Ids are numbered in the order
  of submission, and \<open>ray.get\<close> raises for a task whose function raised.
\<close>

type_synonym 'v object_store = "(error + 'v) list"

definition remote :: "('a \<Rightarrow> error + 'v) \<Rightarrow> 'a \<Rightarrow> 'v object_store \<Rightarrow> nat \<times> 'v object_store" where
  "remote f x store = (length store, store @ [f x])"

fun remote_each ::
  "('a \<Rightarrow> error + 'v) \<Rightarrow> 'a list \<Rightarrow> 'v object_store \<Rightarrow> nat list \<times> 'v object_store" where
  "remote_each f [] store = ([], store)"
| "remote_each f (x # xs) store =
     (case remote f x store of
        (i, store1) \<Rightarrow> (case remote_each f xs store1 of (ids, store2) \<Rightarrow> (i # ids, store2)))"

definition store_get :: "'v object_store \<Rightarrow> nat \<Rightarrow> 'v option" where
  "store_get store i =
     (if i < length store then (case store ! i of Inl e \<Rightarrow> None | Inr v \<Rightarrow> Some v) else None)"

text \<open>
  The solution of Exercise 1:
  \<open>ids = [slow_square.remote(n) for n in range(4)]; squares = ray.get(ids)\<close>.
\<close>

definition exercise1_ray :: "error + int list" where
  "exercise1_ray =
     (case remote_each slow_square (py_range 4) [] of (ids, store) \<Rightarrow> ray_get (store_get store) ids)"

text \<open>
  The solution of Exercise 3: the same tasks, collected by the polling loop
  \<open>squares_loop\<close>.
\<close>

definition exercise3_ray :: "nat wait_oracle \<Rightarrow> (error + int list) option" where
  "exercise3_ray wait =
     (case remote_each slow_square (py_range 4) [] of
        (ids, store) \<Rightarrow> squares_loop wait (store_get store) ids)"

section \<open>The crossing point of local and remote execution times\<close>

text \<open>
  \<^verbatim>\<open>
  i=0
  while i < len(ns) and local_durations[i] < remote_durations[i]:
      i=i+1
  print('... n = {:d}, local = {:6.3f} vs. remote = {:6.3f}'.format(
      ns[i], local_durations[i], remote_durations[i]))
  \<close>
  Reading a list beyond its end raises \<open>IndexError\<close>. The durations are differences of
  clock readings; only their order matters.
\<close>

definition index :: "'a list \<Rightarrow> nat \<Rightarrow> error + 'a" where
  "index xs i = (if i < length xs then Inr (xs ! i) else Inl IndexError)"

function crossing_search ::
  "int list \<Rightarrow> ('a::linorder) list \<Rightarrow> 'a list \<Rightarrow> nat \<Rightarrow> error + nat" where
  "crossing_search ns local_durations remote_durations i =
     (if i < length ns then
        (case index local_durations i of
           Inl e \<Rightarrow> Inl e
         | Inr l \<Rightarrow>
             (case index remote_durations i of
                Inl e \<Rightarrow> Inl e
              | Inr r \<Rightarrow>
                  if l < r then crossing_search ns local_durations remote_durations (i + 1)
                  else Inr i))
      else Inr i)"
  by pat_completeness auto
termination
  by (relation "measure (\<lambda>(ns, l, r, i). length ns - i)") auto

declare crossing_search.simps [simp del]

definition crossing_point ::
  "int list \<Rightarrow> ('a::linorder) list \<Rightarrow> 'a list \<Rightarrow> error + int \<times> 'a \<times> 'a" where
  "crossing_point ns local_durations remote_durations =
     (case crossing_search ns local_durations remote_durations 0 of
        Inl e \<Rightarrow> Inl e
      | Inr i \<Rightarrow>
          (case index ns i of
             Inl e \<Rightarrow> Inl e
           | Inr n \<Rightarrow>
               (case index local_durations i of
                  Inl e \<Rightarrow> Inl e
                | Inr l \<Rightarrow>
                    (case index remote_durations i of
                       Inl e \<Rightarrow> Inl e
                     | Inr r \<Rightarrow> Inr (n, l, r)))))"

text \<open>
  The array sizes of the measurement,
  \<open>ns = [i*(10**j) for j in range(2,5) for i in [1,2,3,5,8]]\<close> (here \<open>measured_ns\<close>,
  as \<open>ns\<close> is the name of the list that the search is given), and the measurement
  itself, which appends one duration to each list for every size. The durations come
  from the clock: \<open>local_time k n\<close> and \<open>remote_time k n\<close> are the ones measured in
  round \<open>k\<close> for size \<open>n\<close>.
\<close>

definition measured_ns :: "int list" where
  "measured_ns = concat (map (\<lambda>j. map (\<lambda>i. i * 10 ^ j) [1, 2, 3, 5, 8]) [2..<5])"

fun measure_durations ::
  "(nat \<Rightarrow> int \<Rightarrow> 'a) \<Rightarrow> (nat \<Rightarrow> int \<Rightarrow> 'a) \<Rightarrow> nat \<Rightarrow> int list \<Rightarrow> 'a list \<times> 'a list \<Rightarrow>
     'a list \<times> 'a list" where
  "measure_durations local_time remote_time k [] (local_durations, remote_durations) =
     (local_durations, remote_durations)"
| "measure_durations local_time remote_time k (n # rest) (local_durations, remote_durations) =
     measure_durations local_time remote_time (Suc k) rest
       (local_durations @ [local_time k n], remote_durations @ [remote_time k n])"

section \<open>Properties of the polling loops\<close>

subsection \<open>Unfolding the loop\<close>

lemma wait_loop_unfold_nonempty:
  "wait_loop nr to wait get t (i # ids) acc =
     (case ray_wait wait t (i # ids) (nr (i # ids)) to of
           Inl e \<Rightarrow> Some (Inl e)
         | Inr (ready_ids, remaining_ids) \<Rightarrow>
             (case ray_get get ready_ids of
                Inl e \<Rightarrow> Some (Inl e)
              | Inr new_arrays \<Rightarrow>
                  wait_loop nr to wait get (Suc t) remaining_ids (acc @ new_arrays)))"
  by (subst wait_loop.simps) simp

lemma wait_loop_unfold_empty: "wait_loop nr to wait get t [] acc = Some (Inr acc)"
  by (subst wait_loop.simps) simp

subsection \<open>Retrieving values\<close>

lemma ray_get_append:
  "ray_get get (xs @ ys) =
     (case ray_get get xs of Inl e \<Rightarrow> Inl e
      | Inr a \<Rightarrow> (case ray_get get ys of Inl e \<Rightarrow> Inl e | Inr b \<Rightarrow> Inr (a @ b)))"
  by (induction xs) (auto split: sum.splits option.splits)

lemma ray_get_Inr_iff: "ray_get get ids = Inr vs \<longleftrightarrow> map get ids = map Some vs"
proof (induction ids arbitrary: vs)
  case Nil
  show ?case by auto
next
  case (Cons i ids)
  show ?case
  proof (cases vs)
    case Nil
    then show ?thesis by (simp split: sum.splits option.splits)
  next
    case (Cons v vs')
    then show ?thesis using Cons.IH [of vs'] by (auto split: sum.splits option.splits)
  qed
qed

lemma ray_get_error: "ray_get get ids = Inl e \<Longrightarrow> e = RayTaskError"
  by (induction ids arbitrary: e) (auto split: sum.splits option.splits)

text \<open>
  What a finished loop has collected: the values of a rearrangement of the ids it started
  with, appended to what it started with.
\<close>

lemma wait_loop_invariant:
  fixes wait :: "'id wait_oracle" and get :: "'id \<Rightarrow> 'v option"
  assumes run: "wait_loop nr to wait get t w acc = Some y"
  shows "wait_contract wait \<longrightarrow>
         (\<forall>res. y = Inr res \<longrightarrow>
            (\<exists>fetched vs. mset fetched = mset w \<and> ray_get get fetched = Inr vs \<and> res = acc @ vs))"
proof (rule wait_loop.raw_induct
    [where P = "\<lambda>nr to wait get t w acc y. wait_contract wait \<longrightarrow>
       (\<forall>res. y = Inr res \<longrightarrow>
          (\<exists>fetched vs. mset fetched = mset w \<and> ray_get get fetched = Inr vs \<and> res = acc @ vs))",
     OF _ run])
  fix wl :: "('id list \<Rightarrow> nat) \<Rightarrow> rat option \<Rightarrow> 'id wait_oracle \<Rightarrow> ('id \<Rightarrow> 'v option) \<Rightarrow>
     nat \<Rightarrow> 'id list \<Rightarrow> 'v list \<Rightarrow> (error + 'v list) option"
  fix nr to and wait :: "'id wait_oracle" and get :: "'id \<Rightarrow> 'v option" and t w acc y
  assume IH: "\<And>nr to wait get t w acc y. wl nr to wait get t w acc = Some y \<Longrightarrow>
      wait_contract wait \<longrightarrow>
      (\<forall>res. y = Inr res \<longrightarrow>
         (\<exists>fetched vs. mset fetched = mset w \<and> ray_get get fetched = Inr vs \<and> res = acc @ vs))"
  assume step: "(if 0 < length w then
        (case ray_wait wait t w (nr w) to of
           Inl e \<Rightarrow> Some (Inl e)
         | Inr (ready_ids, remaining_ids) \<Rightarrow>
             (case ray_get get ready_ids of
                Inl e \<Rightarrow> Some (Inl e)
              | Inr new_arrays \<Rightarrow> wl nr to wait get (Suc t) remaining_ids (acc @ new_arrays)))
      else Some (Inr acc)) = Some y"
  show "wait_contract wait \<longrightarrow>
      (\<forall>res. y = Inr res \<longrightarrow>
         (\<exists>fetched vs. mset fetched = mset w \<and> ray_get get fetched = Inr vs \<and> res = acc @ vs))"
  proof (intro impI allI)
    fix res
    assume c: "wait_contract wait" and y: "y = Inr res"
    show "\<exists>fetched vs. mset fetched = mset w \<and> ray_get get fetched = Inr vs \<and> res = acc @ vs"
    proof (cases "0 < length w")
      case False
      with step y have "res = acc" by simp
      with False show ?thesis by (intro exI [of _ "[]"]) simp
    next
      case True
      with step y obtain ready remaining new where
        w: "wait t w (nr w) to = (ready, remaining)"
        and g: "ray_get get ready = Inr new"
        and r: "wl nr to wait get (Suc t) remaining (acc @ new) = Some (Inr res)"
        by (auto simp: ray_wait_def split: if_splits sum.splits prod.splits)
      from IH [OF r] c obtain fetched vs where
        f: "mset fetched = mset remaining" "ray_get get fetched = Inr vs" "res = (acc @ new) @ vs"
        by blast
      from c w have m: "mset (ready @ remaining) = mset w"
        unfolding wait_contract_def by (metis fst_conv snd_conv)
      have "mset (ready @ fetched) = mset w" using m f(1) by simp
      moreover have "ray_get get (ready @ fetched) = Inr (new @ vs)"
        using g f(2) by (simp add: ray_get_append)
      moreover have "res = acc @ (new @ vs)" using f(3) by simp
      ultimately show ?thesis by blast
    qed
  qed
qed

lemma wait_loop_fetched_once:
  assumes "wait_contract wait" and "wait_loop nr to wait get t ids [] = Some (Inr arrays)"
  shows "fetched_once get ids arrays"
  using wait_loop_invariant [OF assms(2)] assms(1) unfolding fetched_once_def by auto

text \<open>
  \<open>ray.get\<close> raises no \<open>ValueError\<close>, so a loop whose \<open>num_returns\<close> is always within
  bounds does not end with one.
\<close>

lemma wait_loop_no_value_error:
  fixes wait :: "'id wait_oracle" and get :: "'id \<Rightarrow> 'v option"
  assumes run: "wait_loop nr to wait get t w acc = Some y"
  shows "(\<forall>w. w \<noteq> [] \<longrightarrow> 1 \<le> nr w \<and> nr w \<le> length w) \<longrightarrow> y \<noteq> Inl ValueError"
proof (rule wait_loop.raw_induct
    [where P = "\<lambda>nr to wait get t w acc y.
       (\<forall>w. w \<noteq> [] \<longrightarrow> 1 \<le> nr w \<and> nr w \<le> length w) \<longrightarrow> y \<noteq> Inl ValueError",
     OF _ run])
  fix wl :: "('id list \<Rightarrow> nat) \<Rightarrow> rat option \<Rightarrow> 'id wait_oracle \<Rightarrow> ('id \<Rightarrow> 'v option) \<Rightarrow>
     nat \<Rightarrow> 'id list \<Rightarrow> 'v list \<Rightarrow> (error + 'v list) option"
  fix nr to and wait :: "'id wait_oracle" and get :: "'id \<Rightarrow> 'v option" and t w acc y
  assume IH: "\<And>nr to wait get t w acc y. wl nr to wait get t w acc = Some y \<Longrightarrow>
      (\<forall>w. w \<noteq> [] \<longrightarrow> 1 \<le> nr w \<and> nr w \<le> length w) \<longrightarrow> y \<noteq> Inl ValueError"
  assume step: "(if 0 < length w then
        (case ray_wait wait t w (nr w) to of
           Inl e \<Rightarrow> Some (Inl e)
         | Inr (ready_ids, remaining_ids) \<Rightarrow>
             (case ray_get get ready_ids of
                Inl e \<Rightarrow> Some (Inl e)
              | Inr new_arrays \<Rightarrow> wl nr to wait get (Suc t) remaining_ids (acc @ new_arrays)))
      else Some (Inr acc)) = Some y"
  show "(\<forall>w. w \<noteq> [] \<longrightarrow> 1 \<le> nr w \<and> nr w \<le> length w) \<longrightarrow> y \<noteq> Inl ValueError"
  proof
    assume ok: "\<forall>w. w \<noteq> [] \<longrightarrow> 1 \<le> nr w \<and> nr w \<le> length w"
    show "y \<noteq> Inl ValueError"
    proof (cases "0 < length w")
      case False
      with step show ?thesis by auto
    next
      case True
      with ok have b: "1 \<le> nr w" "nr w \<le> length w" by auto
      with True have rw: "ray_wait wait t w (nr w) to = Inr (wait t w (nr w) to)"
        by (simp add: ray_wait_def)
      obtain ready remaining where w: "wait t w (nr w) to = (ready, remaining)"
        by (cases "wait t w (nr w) to")
      show ?thesis
      proof (cases "ray_get get ready")
        case (Inl e)
        then have "e = RayTaskError" by (rule ray_get_error)
        with step True rw w Inl show ?thesis by auto
      next
        case (Inr new)
        with step True rw w have "wl nr to wait get (Suc t) remaining (acc @ new) = Some y"
          by simp
        from IH [OF this] ok show ?thesis by blast
      qed
    qed
  qed
qed


lemma wait_loop_terminates:
  fixes wait :: "'id wait_oracle" and get :: "'id \<Rightarrow> 'v option"
  assumes c: "wait_contract wait" and p: "wait_progress wait"
    and ok: "\<forall>w. w \<noteq> [] \<longrightarrow> 1 \<le> nr w \<and> nr w \<le> length w"
  shows "\<exists>y. wait_loop nr to wait get t w acc = Some y"
proof (induction "length w" arbitrary: t w acc rule: less_induct)
  case less
  show ?case
  proof (cases "w = []")
    case True
    then show ?thesis by (subst wait_loop.simps) simp
  next
    case False
    with ok have b: "1 \<le> nr w" "nr w \<le> length w" by auto
    with False have rw: "ray_wait wait t w (nr w) to = Inr (wait t w (nr w) to)"
      by (simp add: ray_wait_def)
    obtain ready remaining where w: "wait t w (nr w) to = (ready, remaining)"
      by (cases "wait t w (nr w) to")
    from p False b(1) w have "ready \<noteq> []"
      unfolding wait_progress_def by (metis fst_conv less_eq_Suc_le One_nat_def)
    moreover from c w have "mset (ready @ remaining) = mset w"
      unfolding wait_contract_def by (metis fst_conv snd_conv)
    then have "length (ready @ remaining) = length w" by (rule mset_eq_length)
    ultimately have shorter: "length remaining < length w" by (cases ready) auto
    show ?thesis
    proof (cases "ray_get get ready")
      case (Inl e)
      with False rw w show ?thesis by (subst wait_loop.simps) simp
    next
      case (Inr new)
      from less [OF shorter, of "Suc t" "acc @ new"] obtain y where
        "wait_loop nr to wait get (Suc t) remaining (acc @ new) = Some y" by blast
      with False rw w Inr show ?thesis by (subst wait_loop.simps) simp
    qed
  qed
qed

lemma wait_loop_in_order:
  fixes wait :: "'id wait_oracle" and get :: "'id \<Rightarrow> 'v option"
  assumes run: "wait_loop nr to wait get t w acc = Some y"
  shows "in_submission_order wait \<longrightarrow>
         (\<forall>res. y = Inr res \<longrightarrow> (\<exists>vs. ray_get get w = Inr vs \<and> res = acc @ vs))"
proof (rule wait_loop.raw_induct
    [where P = "\<lambda>nr to wait get t w acc y. in_submission_order wait \<longrightarrow>
       (\<forall>res. y = Inr res \<longrightarrow> (\<exists>vs. ray_get get w = Inr vs \<and> res = acc @ vs))",
     OF _ run])
  fix wl :: "('id list \<Rightarrow> nat) \<Rightarrow> rat option \<Rightarrow> 'id wait_oracle \<Rightarrow> ('id \<Rightarrow> 'v option) \<Rightarrow>
     nat \<Rightarrow> 'id list \<Rightarrow> 'v list \<Rightarrow> (error + 'v list) option"
  fix nr to and wait :: "'id wait_oracle" and get :: "'id \<Rightarrow> 'v option" and t w acc y
  assume IH: "\<And>nr to wait get t w acc y. wl nr to wait get t w acc = Some y \<Longrightarrow>
      in_submission_order wait \<longrightarrow>
      (\<forall>res. y = Inr res \<longrightarrow> (\<exists>vs. ray_get get w = Inr vs \<and> res = acc @ vs))"
  assume step: "(if 0 < length w then
        (case ray_wait wait t w (nr w) to of
           Inl e \<Rightarrow> Some (Inl e)
         | Inr (ready_ids, remaining_ids) \<Rightarrow>
             (case ray_get get ready_ids of
                Inl e \<Rightarrow> Some (Inl e)
              | Inr new_arrays \<Rightarrow> wl nr to wait get (Suc t) remaining_ids (acc @ new_arrays)))
      else Some (Inr acc)) = Some y"
  show "in_submission_order wait \<longrightarrow>
      (\<forall>res. y = Inr res \<longrightarrow> (\<exists>vs. ray_get get w = Inr vs \<and> res = acc @ vs))"
  proof (intro impI allI)
    fix res
    assume c: "in_submission_order wait" and y: "y = Inr res"
    show "\<exists>vs. ray_get get w = Inr vs \<and> res = acc @ vs"
    proof (cases "0 < length w")
      case False
      with step y show ?thesis by simp
    next
      case True
      with step y obtain ready remaining new where
        w: "wait t w (nr w) to = (ready, remaining)"
        and g: "ray_get get ready = Inr new"
        and r: "wl nr to wait get (Suc t) remaining (acc @ new) = Some (Inr res)"
        by (auto simp: ray_wait_def split: if_splits sum.splits prod.splits)
      from IH [OF r] c obtain vs where
        f: "ray_get get remaining = Inr vs" "res = (acc @ new) @ vs"
        by blast
      from c w obtain k where "ready = take k w" "remaining = drop k w"
        unfolding in_submission_order_def by (metis prod.inject)
      then have "w = ready @ remaining" by simp
      then have "ray_get get w = Inr (new @ vs)"
        using g f(1) by (simp add: ray_get_append)
      with f(2) show ?thesis by simp
    qed
  qed
qed

lemma fetched_once_mset:
  assumes "fetched_once get ids arrays" and "ray_get get ids = Inr vs"
  shows "mset arrays = mset vs"
proof -
  from assms(1) obtain fetched where
    f: "mset fetched = mset ids" "ray_get get fetched = Inr arrays"
    unfolding fetched_once_def by blast
  have "mset (map Some arrays) = mset (map get fetched)"
    using f(2) by (simp add: ray_get_Inr_iff)
  also have "\<dots> = image_mset get (mset ids)" using f(1) by simp
  also have "\<dots> = mset (map Some vs)" using assms(2) by (simp add: ray_get_Inr_iff flip: mset_map)
  finally have "image_mset Some (mset arrays) = image_mset Some (mset vs)" by simp
  then have "image_mset the (image_mset Some (mset arrays)) =
      image_mset the (image_mset Some (mset vs))" by simp
  then show ?thesis by (simp add: multiset.map_comp comp_def)
qed

subsection \<open>Order of completion\<close>

text \<open>
  When the tasks finish in submission order and every call makes progress, the loop
  returns what \<open>ray.get\<close> returns on the whole list.
\<close>

lemma wait_loop_in_order_total:
  fixes wait :: "'id wait_oracle" and get :: "'id \<Rightarrow> 'v option"
  assumes o: "in_submission_order wait" and p: "wait_progress wait"
    and ok: "\<forall>w. w \<noteq> [] \<longrightarrow> 1 \<le> nr w \<and> nr w \<le> length w"
  shows "wait_loop nr to wait get t w acc =
           (case ray_get get w of Inl e \<Rightarrow> Some (Inl e) | Inr vs \<Rightarrow> Some (Inr (acc @ vs)))"
proof (induction "length w" arbitrary: t w acc rule: less_induct)
  case less
  show ?case
  proof (cases "w = []")
    case True
    then show ?thesis by (simp add: wait_loop_unfold_empty)
  next
    case False
    then obtain i ids where w_def: "w = i # ids" by (cases w) auto
    from False ok have b: "1 \<le> nr w" "nr w \<le> length w" by auto
    with False have rw: "ray_wait wait t w (nr w) to = Inr (wait t w (nr w) to)"
      by (simp add: ray_wait_def)
    from o obtain k where w: "wait t w (nr w) to = (take k w, drop k w)"
      unfolding in_submission_order_def by blast
    from p False b(1) w have ne: "take k w \<noteq> []"
      unfolding wait_progress_def by (metis fst_conv less_eq_Suc_le One_nat_def)
    then have shorter: "length (drop k w) < length w" using False by (cases k) auto
    have split: "ray_get get w =
        (case ray_get get (take k w) of Inl e \<Rightarrow> Inl e
         | Inr a \<Rightarrow> (case ray_get get (drop k w) of Inl e \<Rightarrow> Inl e | Inr b \<Rightarrow> Inr (a @ b)))"
      using ray_get_append [of get "take k w" "drop k w"] by simp
    show ?thesis
    proof (cases "ray_get get (take k w)")
      case (Inl e)
      with rw w split show ?thesis unfolding w_def
        by (simp add: wait_loop_unfold_nonempty)
    next
      case (Inr new)
      have "wait_loop nr to wait get t w acc =
          wait_loop nr to wait get (Suc t) (drop k w) (acc @ new)"
        using rw w Inr unfolding w_def by (simp add: wait_loop_unfold_nonempty)
      also have "\<dots> = (case ray_get get (drop k w) of Inl e \<Rightarrow> Some (Inl e)
          | Inr vs \<Rightarrow> Some (Inr ((acc @ new) @ vs)))"
        by (rule less [OF shorter])
      also have "\<dots> = (case ray_get get w of Inl e \<Rightarrow> Some (Inl e)
          | Inr vs \<Rightarrow> Some (Inr (acc @ vs)))"
        using split Inr by (simp split: sum.splits)
      finally show ?thesis .
    qed
  qed
qed

subsection \<open>The two example answers of the framework\<close>

lemma newest_first_contract: "wait_contract newest_first"
proof -
  have "mset ([last w] @ butlast w) = mset w" if "w \<noteq> []" for w :: "'a list"
  proof -
    have "mset (butlast w @ [last w]) = mset w" using that by simp
    then show ?thesis by simp
  qed
  then show ?thesis by (simp add: wait_contract_def newest_first_def)
qed

lemma oldest_first_contract: "wait_contract oldest_first"
  by (simp add: wait_contract_def oldest_first_def)

lemma oldest_first_progress: "wait_progress oldest_first"
  by (simp add: wait_progress_def oldest_first_def)

lemma oldest_first_in_order: "in_submission_order oldest_first"
  unfolding in_submission_order_def oldest_first_def by blast

lemma in_submission_order_contract: "in_submission_order wait \<Longrightarrow> wait_contract wait"
  unfolding in_submission_order_def wait_contract_def
proof (intro allI)
  fix t w n timeout
  assume "\<forall>t w n timeout. \<exists>k. wait t w n timeout = (take k w, drop k w)"
  then obtain k where "wait t w n timeout = (take k w, drop k w)" by blast
  then show "mset (fst (wait t w n timeout) @ snd (wait t w n timeout)) = mset w" by simp
qed

section \<open>Exercise 3: the values collected\<close>

lemma exercise3_store:
  "remote_each slow_square (py_range 4) [] = ([0, 1, 2, 3], [Inr 0, Inr 1, Inr 4, Inr 9])"
  by (simp add: py_range_def remote_def slow_square_def upt_rec)

lemma exercise3_get:
  "ray_get (store_get [Inr 0, Inr 1, Inr 4, Inr (9::int)]) [0, 1, 2, 3] = Inr [0, 1, 4, 9]"
  by (simp add: store_get_def)

lemma exercise1_squares: "exercise1_ray = Inr [0, 1, 4, 9]"
  by (simp add: exercise1_ray_def exercise3_store store_get_def)

text \<open>
  The cell of the lesson, which calls \<open>slow_square\<close> as a plain function, builds
  \<open>[0, 1, 4, 9]\<close>.
\<close>

lemma exercise3_sequential_squares: "exercise3_sequential = Inr [0, 1, 4, 9]"
  by (simp add: exercise3_sequential_def py_range_def slow_square_def upt_rec)

text \<open>
  The polling loop of the solution appends the values in the order in which \<open>ray.wait\<close>
  reports the tasks. Whatever that order is, a loop that ends normally has collected a
  rearrangement of \<open>[0, 1, 4, 9]\<close>. When the tasks are reported in submission order, one
  or more at every call, the loop ends with \<open>[0, 1, 4, 9]\<close>. Which order occurs is a
  matter of when the tasks finish, and of when the loop asks; the model has no time and
  leaves it open.
\<close>

lemma exercise3_ray_permutation:
  assumes c: "wait_contract wait" and run: "exercise3_ray wait = Some (Inr squares)"
  shows "mset squares = mset [0, 1, 4, 9]"
proof -
  from run have "wait_loop (\<lambda>_. 1) None wait (store_get [Inr 0, Inr 1, Inr 4, Inr 9]) 0
      [0, 1, 2, 3] [] = Some (Inr squares)"
    by (simp add: exercise3_ray_def exercise3_store squares_loop_def)
  with c have "fetched_once (store_get [Inr 0, Inr 1, Inr 4, Inr 9]) [0, 1, 2, 3] squares"
    by (rule wait_loop_fetched_once)
  then show ?thesis
    using exercise3_get by (rule fetched_once_mset)
qed

lemma exercise3_ray_in_order:
  assumes o: "in_submission_order wait" and p: "wait_progress wait"
  shows "exercise3_ray wait = Some (Inr [0, 1, 4, 9])"
proof -
  have ok: "\<forall>w::nat list. w \<noteq> [] \<longrightarrow> 1 \<le> (1::nat) \<and> 1 \<le> length w"
    by (auto simp: Suc_le_eq)
  have "exercise3_ray wait =
      wait_loop (\<lambda>_. 1) None wait (store_get [Inr 0, Inr 1, Inr 4, Inr 9]) 0 [0, 1, 2, 3] []"
    by (simp add: exercise3_ray_def exercise3_store squares_loop_def)
  also have "\<dots> =
      (case ray_get (store_get [Inr 0, Inr 1, Inr 4, Inr 9]) [0, 1, 2, 3] of
         Inl e \<Rightarrow> Some (Inl e) | Inr vs \<Rightarrow> Some (Inr ([] @ vs)))"
    by (rule wait_loop_in_order_total [OF o p ok])
  also have "\<dots> = Some (Inr [0, 1, 4, 9])"
    by (simp add: store_get_def)
  finally show ?thesis .
qed

section \<open>The polling loops: every id once, and no argument error\<close>

lemma one_within_bounds:
  "\<forall>w::'id list. w \<noteq> [] \<longrightarrow> 1 \<le> (\<lambda>_. 1::nat) w \<and> (\<lambda>_. 1::nat) w \<le> length w"
  by (auto simp: Suc_le_eq)

lemma return_n_bounds:
  "\<forall>w::'id list. w \<noteq> [] \<longrightarrow> 1 \<le> return_n w \<and> return_n w \<le> length w"
  by (auto simp: return_n_def Suc_le_eq)

lemma fetched_once_length: "fetched_once get ids arrays \<Longrightarrow> length arrays = length ids"
proof -
  assume "fetched_once get ids arrays"
  then obtain fetched where f: "mset fetched = mset ids" "ray_get get fetched = Inr arrays"
    unfolding fetched_once_def by blast
  from f(2) have "map get fetched = map Some arrays" by (simp add: ray_get_Inr_iff)
  then have "length fetched = length arrays" by (metis length_map)
  moreover from f(1) have "length fetched = length ids" by (rule mset_eq_length)
  ultimately show ?thesis by simp
qed

text \<open>
  With the identity for the values, the result of a loop is the list of the ids that it
  passed to \<open>ray.get\<close>, in that order: every submitted id, as often as it was submitted.
\<close>

lemma wait_loop_ids_retrieved:
  assumes "wait_contract wait" and "wait_loop nr to wait Some t ids [] = Some (Inr retrieved)"
  shows "mset retrieved = mset ids"
proof -
  from wait_loop_invariant [OF assms(2)] assms(1) obtain fetched where
    f: "mset fetched = mset ids" "ray_get Some fetched = Inr retrieved"
    by auto
  from f(2) have "map Some fetched = map Some retrieved" by (simp add: ray_get_Inr_iff)
  then have "fetched = retrieved" by (simp add: inj_map_eq_map)
  with f(1) show ?thesis by simp
qed

text \<open>
  Claim C2. In each of the polling loops (\<open>num_returns=1\<close>, \<open>num_returns=return_n\<close>
  with either timeout, and the defaults), if \<open>ray.wait\<close> always returns two lists
  that are together a rearrangement of the list it was given, then at the exit of the
  loop the results are the values of the submitted ids, each id retrieved once: the ids
  passed to \<open>ray.get\<close>, in the order they were passed, are a rearrangement of the
  submitted ids, and the results are their values in that order. The loops do exit
  when, in addition, every call reports at least one id.
\<close>

theorem polling_loops_fetch_each_id_once:
  assumes c: "wait_contract wait"
  shows "(arrays_loop_one wait get ids = Some (Inr arrays) \<longrightarrow> fetched_once get ids arrays) \<and>
         (arrays_loop_two timeout wait get ids = Some (Inr arrays) \<longrightarrow>
            fetched_once get ids arrays) \<and>
         (squares_loop wait get ids = Some (Inr arrays) \<longrightarrow> fetched_once get ids arrays) \<and>
         (wait_progress wait \<longrightarrow>
            arrays_loop_one wait get ids \<noteq> None \<and>
            arrays_loop_two timeout wait get ids \<noteq> None \<and>
            squares_loop wait get ids \<noteq> None)"
proof (intro conjI impI)
  assume "arrays_loop_one wait get ids = Some (Inr arrays)"
  then show "fetched_once get ids arrays"
    unfolding arrays_loop_one_def using c by (intro wait_loop_fetched_once)
next
  assume "arrays_loop_two timeout wait get ids = Some (Inr arrays)"
  then show "fetched_once get ids arrays"
    unfolding arrays_loop_two_def using c by (intro wait_loop_fetched_once)
next
  assume "squares_loop wait get ids = Some (Inr arrays)"
  then show "fetched_once get ids arrays"
    unfolding squares_loop_def using c by (intro wait_loop_fetched_once)
next
  assume p: "wait_progress wait"
  show "arrays_loop_one wait get ids \<noteq> None"
    unfolding arrays_loop_one_def
    using wait_loop_terminates [OF c p one_within_bounds, of "Some 10" get 0 ids "[]"] by auto
  show "arrays_loop_two timeout wait get ids \<noteq> None"
    unfolding arrays_loop_two_def
    using wait_loop_terminates [OF c p return_n_bounds, of timeout get 0 ids "[]"] by auto
  show "squares_loop wait get ids \<noteq> None"
    unfolding squares_loop_def
    using wait_loop_terminates [OF c p one_within_bounds, of None get 0 ids "[]"] by auto
qed

text \<open>
  Claim C2, witness: five ids whose values are ten times the id, with the oldest ids
  reported first in the two loops for \<open>arrays\<close> and the newest first in the loop for
  \<open>squares\<close>.
\<close>

theorem polling_loops_fetch_each_id_once_witness:
  "arrays_loop_one oldest_first (\<lambda>i. Some (10 * i)) [0, 1, 2, 3, 4 :: nat] =
     Some (Inr [0, 10, 20, 30, 40]) \<and>
   arrays_loop_two (Some (5 / 2)) oldest_first (\<lambda>i. Some (10 * i)) [0, 1, 2, 3, 4 :: nat] =
     Some (Inr [0, 10, 20, 30, 40]) \<and>
   squares_loop newest_first (\<lambda>i. Some (10 * i)) [0, 1, 2, 3, 4 :: nat] =
     Some (Inr [40, 30, 20, 10, 0]) \<and>
   fetched_once (\<lambda>i. Some (10 * i)) [0, 1, 2, 3, 4 :: nat] [0, 10, 20, 30, 40] \<and>
   fetched_once (\<lambda>i. Some (10 * i)) [0, 1, 2, 3, 4 :: nat] [40, 30, 20, 10, 0]"
proof -
  have one: "arrays_loop_one oldest_first (\<lambda>i. Some (10 * i)) [0, 1, 2, 3, 4 :: nat] =
     Some (Inr [0, 10, 20, 30, 40])"
    by (simp add: arrays_loop_one_def wait_loop_unfold_nonempty wait_loop_unfold_empty
        ray_wait_def oldest_first_def)
  have two: "arrays_loop_two (Some (5 / 2)) oldest_first (\<lambda>i. Some (10 * i))
     [0, 1, 2, 3, 4 :: nat] = Some (Inr [0, 10, 20, 30, 40])"
    by (simp add: arrays_loop_two_def wait_loop_unfold_nonempty wait_loop_unfold_empty
        ray_wait_def oldest_first_def return_n_def)
  have three: "squares_loop newest_first (\<lambda>i. Some (10 * i)) [0, 1, 2, 3, 4 :: nat] =
     Some (Inr [40, 30, 20, 10, 0])"
    by (simp add: squares_loop_def wait_loop_unfold_nonempty wait_loop_unfold_empty
        ray_wait_def newest_first_def)
  from one two three
    polling_loops_fetch_each_id_once [OF oldest_first_contract,
      of "\<lambda>i. Some (10 * i)" "[0, 1, 2, 3, 4 :: nat]" "[0, 10, 20, 30, 40 :: nat]"
        "Some (5 / 2)"]
    polling_loops_fetch_each_id_once [OF newest_first_contract,
      of "\<lambda>i. Some (10 * i)" "[0, 1, 2, 3, 4 :: nat]" "[40, 30, 20, 10, 0 :: nat]" None]
  show ?thesis by blast
qed

text \<open>
  Claim C3. In an iteration entered with \<open>len(waiting_ids) > 0\<close>, \<open>return_n\<close> is at
  least 1 and at most \<open>len(waiting_ids)\<close>, so the argument check of \<open>ray.wait\<close> passes;
  hence the loop with \<open>num_returns=return_n\<close> never ends with the error of that check.
\<close>

theorem return_n_within_bounds:
  "(0 < length waiting_ids \<longrightarrow>
      1 \<le> return_n waiting_ids \<and> return_n waiting_ids \<le> length waiting_ids \<and>
      ray_wait wait t waiting_ids (return_n waiting_ids) timeout =
        Inr (wait t waiting_ids (return_n waiting_ids) timeout)) \<and>
   arrays_loop_two timeout wait get ids \<noteq> Some (Inl ValueError)"
proof (intro conjI impI)
  assume nonempty: "0 < length waiting_ids"
  show lower: "1 \<le> return_n waiting_ids"
    by (simp add: return_n_def)
  show upper: "return_n waiting_ids \<le> length waiting_ids"
    using nonempty by (auto simp: return_n_def simp del: length_greater_0_conv)
  show "ray_wait wait t waiting_ids (return_n waiting_ids) timeout =
        Inr (wait t waiting_ids (return_n waiting_ids) timeout)"
    using nonempty lower upper by (simp add: ray_wait_def)
next
  show "arrays_loop_two timeout wait get ids \<noteq> Some (Inl ValueError)"
  proof
    assume "arrays_loop_two timeout wait get ids = Some (Inl ValueError)"
    then have "wait_loop return_n timeout wait get 0 ids [] = Some (Inl ValueError)"
      by (simp add: arrays_loop_two_def)
    from wait_loop_no_value_error [OF this] return_n_bounds show False by blast
  qed
qed

text \<open>
  Claim C3, witness: one id left, where \<open>return_n\<close> is 1; and five ids, where asking
  for two every time ends with the error in the last round while the loop with
  \<open>return_n\<close> does not.
\<close>

theorem return_n_within_bounds_witness:
  "0 < length [4 :: nat] \<and> return_n [4 :: nat] = 1 \<and>
   ray_wait oldest_first 2 [4 :: nat] (return_n [4 :: nat]) (Some 10) = Inr ([4], []) \<and>
   wait_loop (\<lambda>_. 2) (Some 10) oldest_first (\<lambda>i. Some (10 * i)) 0 [0, 1, 2, 3, 4 :: nat] [] =
     Some (Inl ValueError) \<and>
   arrays_loop_two (Some 10) oldest_first (\<lambda>i. Some (10 * i)) [0, 1, 2, 3, 4 :: nat] \<noteq>
     Some (Inl ValueError)"
proof -
  have "wait_loop (\<lambda>_. 2) (Some 10) oldest_first (\<lambda>i. Some (10 * i)) 0 [0, 1, 2, 3, 4 :: nat] [] =
     Some (Inl ValueError)"
    by (simp add: wait_loop_unfold_nonempty wait_loop_unfold_empty ray_wait_def oldest_first_def)
  then show ?thesis
    using return_n_within_bounds [of "[4 :: nat]" oldest_first 2 "Some 10"
        "\<lambda>i. Some (10 * i)" "[0, 1, 2, 3, 4 :: nat]"]
    by (simp add: return_n_def oldest_first_def)
qed


section \<open>The crossing point: when the indexing is in bounds\<close>

text \<open>
  The measurement appends to both lists of durations once for each size, so the three
  lists of the search have the same length.
\<close>

lemma measure_durations_length:
  "measure_durations local_time remote_time k sizes (ld, rd) = (ld', rd') \<Longrightarrow>
     length ld' = length ld + length sizes \<and> length rd' = length rd + length sizes"
  by (induction sizes arbitrary: k ld rd) auto

lemma measured_ns_value:
  "measured_ns = [100, 200, 300, 500, 800, 1000, 2000, 3000, 5000, 8000,
         10000, 20000, 30000, 50000, 80000]"
  by (simp add: measured_ns_def upt_rec)


lemma measured_lengths:
  assumes "measure_durations local_time remote_time 0 measured_ns ([], []) = (ld, rd)"
  shows "length ld = length measured_ns \<and> length rd = length measured_ns"
  using measure_durations_length [OF assms] by simp

text \<open>
  The search over lists of equal length stops at the first index where local execution
  is not faster, or at the length of the lists when there is none.
\<close>

lemma crossing_search_result:
  fixes l r :: "('a::linorder) list"
  assumes "length l = length ns" and "length r = length ns" and "i \<le> length ns"
  shows "\<exists>j. crossing_search ns l r i = Inr j \<and> i \<le> j \<and> j \<le> length ns \<and>
           (\<forall>k. i \<le> k \<and> k < j \<longrightarrow> l ! k < r ! k) \<and>
           (j < length ns \<longrightarrow> r ! j \<le> l ! j)"
  using assms
proof (induction ns l r i rule: crossing_search.induct)
  case (1 ns l r i)
  show ?case
  proof (cases "i < length ns")
    case False
    with "1.prems" have "i = length ns" by simp
    then show ?thesis by (subst crossing_search.simps) auto
  next
    case True
    with "1.prems" have il: "index l i = Inr (l ! i)" and ir: "index r i = Inr (r ! i)"
      by (simp_all add: index_def)
    show ?thesis
    proof (cases "l ! i < r ! i")
      case False
      with True il ir have "crossing_search ns l r i = Inr i"
        by (subst crossing_search.simps) simp
      with True False show ?thesis by auto
    next
      case less: True
      from True have "i + 1 \<le> length ns" by simp
      from "1.IH" [OF True il ir less "1.prems"(1,2) this] obtain j where
        j: "crossing_search ns l r (i + 1) = Inr j" "i + 1 \<le> j" "j \<le> length ns"
           "\<forall>k. i + 1 \<le> k \<and> k < j \<longrightarrow> l ! k < r ! k" "j < length ns \<longrightarrow> r ! j \<le> l ! j"
        by blast
      from True il ir less j(1) have "crossing_search ns l r i = Inr j"
        by (subst crossing_search.simps) simp
      moreover have "\<forall>k. i \<le> k \<and> k < j \<longrightarrow> l ! k < r ! k"
      proof (intro allI impI)
        fix k assume k: "i \<le> k \<and> k < j"
        show "l ! k < r ! k"
        proof (cases "k = i")
          case True
          with less show ?thesis by simp
        next
          case False
          with k have "i + 1 \<le> k \<and> k < j" by simp
          with j(4) show ?thesis by blast
        qed
      qed
      ultimately show ?thesis using j(2,3,5) by auto
    qed
  qed
qed

text \<open>
  Claim C4. With the three lists of the same length, as the measurement leaves them:
  after the search, reading \<open>ns[i]\<close>, \<open>local_durations[i]\<close> and \<open>remote_durations[i]\<close>
  is in bounds exactly when some index \<open>k < len(ns)\<close> has
  \<open>local_durations[k] >= remote_durations[k]\<close>; when local execution is faster at every
  size, the search ends with \<open>i = len(ns)\<close> and the indexing raises \<open>IndexError\<close>.
\<close>

theorem crossing_point_in_bounds:
  fixes local_durations remote_durations :: "('a::linorder) list"
  assumes "length local_durations = length ns" and "length remote_durations = length ns"
  shows "((\<exists>v. crossing_point ns local_durations remote_durations = Inr v) \<longleftrightarrow>
            (\<exists>k<length ns. remote_durations ! k \<le> local_durations ! k)) \<and>
         ((\<forall>k<length ns. local_durations ! k < remote_durations ! k) \<longrightarrow>
            crossing_search ns local_durations remote_durations 0 = Inr (length ns) \<and>
            crossing_point ns local_durations remote_durations = Inl IndexError)"
proof -
  from crossing_search_result [OF assms, of 0] obtain j where
    j: "crossing_search ns local_durations remote_durations 0 = Inr j" "j \<le> length ns"
       "\<forall>k. k < j \<longrightarrow> local_durations ! k < remote_durations ! k"
       "j < length ns \<longrightarrow> remote_durations ! j \<le> local_durations ! j"
    by auto
  show ?thesis
  proof (cases "j < length ns")
    case True
    with assms j(1) have "crossing_point ns local_durations remote_durations =
        Inr (ns ! j, local_durations ! j, remote_durations ! j)"
      by (simp add: crossing_point_def index_def)
    moreover from True j(4) have "\<exists>k<length ns. remote_durations ! k \<le> local_durations ! k"
      by blast
    moreover from True j(4) have "\<not> (\<forall>k<length ns. local_durations ! k < remote_durations ! k)"
      by (meson not_less)
    ultimately show ?thesis by simp
  next
    case False
    with j(2) have e: "j = length ns" by simp
    with j(1) have "crossing_point ns local_durations remote_durations = Inl IndexError"
      by (simp add: crossing_point_def index_def)
    moreover from e j(3) have "\<not> (\<exists>k<length ns. remote_durations ! k \<le> local_durations ! k)"
      by (meson not_less)
    ultimately show ?thesis using j(1) e by simp
  qed
qed

text \<open>
  Claim C4, witness: three sizes where remote execution wins from the second on, and
  two sizes where local execution is always faster.
\<close>

theorem crossing_point_in_bounds_witness:
  "crossing_point [100, 200, 300] [1, 5, 9 :: rat] [3, 4, 2] = Inr (200, 5, 4) \<and>
   (\<exists>k<length [100, 200, 300 :: int]. [3, 4, 2 :: rat] ! k \<le> [1, 5, 9] ! k) \<and>
   crossing_search [100, 200] [1, 2 :: rat] [3, 4] 0 = Inr 2 \<and>
   crossing_point [100, 200] [1, 2 :: rat] [3, 4] = Inl IndexError"
proof -
  have faster: "\<forall>k<length [100, 200 :: int]. [1, 2 :: rat] ! k < [3, 4] ! k"
    by (simp add: less_Suc_eq numeral_2_eq_2)
  have found: "crossing_point [100, 200, 300] [1, 5, 9 :: rat] [3, 4, 2] = Inr (200, 5, 4)"
    by (simp add: crossing_point_def index_def crossing_search.simps)
  from found faster
    crossing_point_in_bounds [of "[1, 5, 9 :: rat]" "[100, 200, 300]" "[3, 4, 2]"]
    crossing_point_in_bounds [of "[1, 2 :: rat]" "[100, 200]" "[3, 4]"]
  show ?thesis by simp
qed

section \<open>The error that the loops avoid, and the errors that they let through\<close>





end
